theory Spec2Isabelle
  imports Main "HOL-Library.Word"
begin

section \<open>Strings\<close>

text \<open>
  A JavaScript string is a sequence of UTF-16 code units; \<open>length\<close>, \<open>slice\<close>,
  \<open>lastIndexOf\<close> and \<open>===\<close> all work on code units. A string is therefore a list
  of 16-bit words. \<open>ascii\<close> writes a literal of the source.
\<close>

type_synonym jschar = "16 word"
type_synonym jsstring = "jschar list"

definition ascii :: "string \<Rightarrow> jsstring" where
  "ascii s = map (\<lambda>c. of_char c) s"

definition newline :: jschar where
  "newline = 0x0A"

definition space :: jschar where
  "space = 0x20"

text \<open>The code units \<open>String.prototype.trim\<close> removes: white space and line terminators.\<close>

definition isWhiteSpace :: "jschar \<Rightarrow> bool" where
  "isWhiteSpace c \<longleftrightarrow>
     c \<in> set [0x09, 0x0A, 0x0B, 0x0C, 0x0D, 0x20, 0xA0, 0x1680, 0x2028, 0x2029,
               0x202F, 0x205F, 0x3000, 0xFEFF]
     \<or> (0x2000 \<le> c \<and> c \<le> 0x200A)"

definition trim :: "jsstring \<Rightarrow> jsstring" where
  "trim s = rev (dropWhile isWhiteSpace (rev (dropWhile isWhiteSpace s)))"

text \<open>
  \<open>s.slice(b, e)\<close> and \<open>s.slice(b)\<close>: a negative index counts from the end, and
  every index is clamped to the string.
\<close>

definition sliceIndex :: "nat \<Rightarrow> int \<Rightarrow> nat" where
  "sliceIndex len k = (if k < 0 then nat (max (int len + k) 0) else min (nat k) len)"

definition slice :: "'a list \<Rightarrow> int \<Rightarrow> int \<Rightarrow> 'a list" where
  "slice s b e =
     (let from = sliceIndex (length s) b; to = sliceIndex (length s) e
      in take (to - from) (drop from s))"

definition sliceFrom :: "'a list \<Rightarrow> int \<Rightarrow> 'a list" where
  "sliceFrom s b = drop (sliceIndex (length s) b) s"

text \<open>
  \<open>s.lastIndexOf(c, position)\<close> for a one-unit search string: the search starts at
  \<open>min position (length s - 1)\<close> and walks down to index 0; the result is -1 when no
  index matches.
\<close>

fun lastIndexFrom :: "jsstring \<Rightarrow> jschar \<Rightarrow> nat \<Rightarrow> int" where
  "lastIndexFrom s c 0 = (if s ! 0 = c then 0 else -1)"
| "lastIndexFrom s c (Suc i) = (if s ! Suc i = c then int (Suc i) else lastIndexFrom s c i)"

definition lastIndexOf :: "jsstring \<Rightarrow> jschar \<Rightarrow> nat \<Rightarrow> int" where
  "lastIndexOf s c position =
     (if s = [] then -1 else lastIndexFrom s c (min position (length s - 1)))"

section \<open>splitMessage\<close>

text \<open>
  The split index one iteration of the loop picks (the three statements before
  \<open>parts.push\<close>). \<open>maxLength\<close> is a whole number at every call site (1900), so
  \<open>splitIndex < maxLength / 2\<close> is \<open>2 * splitIndex < maxLength\<close>.
\<close>

definition chooseSplitIndex :: "jsstring \<Rightarrow> nat \<Rightarrow> int" where
  "chooseSplitIndex remaining maxLength =
     (let splitIndex = lastIndexOf remaining newline maxLength;
          splitIndex = (if splitIndex = -1 \<or> 2 * splitIndex < int maxLength
                        then lastIndexOf remaining space maxLength else splitIndex);
          splitIndex = (if splitIndex = -1 \<or> 2 * splitIndex < int maxLength
                        then int maxLength else splitIndex)
      in splitIndex)"

text \<open>
  The \<open>while (remaining.length > 0)\<close> loop. Nothing in the source bounds the number
  of iterations, so the loop is a partial function: \<open>None\<close> is the loop that never ends.
\<close>

partial_function (option) splitLoop ::
  "nat \<Rightarrow> jsstring \<Rightarrow> jsstring list \<Rightarrow> jsstring list option" where
  "splitLoop maxLength remaining parts =
     (if length remaining > 0 then
        (if length remaining \<le> maxLength then Some (parts @ [remaining])
         else splitLoop maxLength
                (trim (sliceFrom remaining (chooseSplitIndex remaining maxLength)))
                (parts @ [slice remaining 0 (chooseSplitIndex remaining maxLength)]))
      else Some parts)"

declare splitLoop.simps [code]

definition splitMessage :: "jsstring \<Rightarrow> nat \<Rightarrow> jsstring list option" where
  "splitMessage text maxLength =
     (if length text \<le> maxLength then Some [text] else splitLoop maxLength text [])"

text \<open>
  The words of the specification: the latest occurrence of a code unit at or before
  a limit.
\<close>

definition latestAt :: "jsstring \<Rightarrow> jschar \<Rightarrow> nat \<Rightarrow> nat \<Rightarrow> bool" where
  "latestAt s c limit i \<longleftrightarrow>
     i \<le> limit \<and> i < length s \<and> s ! i = c
     \<and> (\<forall>j \<in> {i<..limit}. j < length s \<longrightarrow> s ! j \<noteq> c)"


section \<open>Messages and the latest exchange\<close>

text \<open>
  A message of the backend carries its role either at \<open>msg.role\<close> or at
  \<open>msg.info.role\<close>, and a list of typed parts (\<open>None\<close> is an absent field).
\<close>

record part =
  part_type :: jsstring
  part_text :: "jsstring option"

record message =
  msg_role :: "jsstring option"
  msg_info_role :: "jsstring option"
  msg_parts :: "part list option"

text \<open>\<open>msg.role || msg.info?.role\<close>: the empty string is falsy.\<close>

definition roleOf :: "message \<Rightarrow> jsstring option" where
  "roleOf msg =
     (case msg_role msg of
        Some r \<Rightarrow> if r \<noteq> [] then Some r else msg_info_role msg
      | None \<Rightarrow> msg_info_role msg)"

fun concatTextParts :: "part list \<Rightarrow> jsstring \<Rightarrow> jsstring" where
  "concatTextParts [] content = content"
| "concatTextParts (p # ps) content =
     concatTextParts ps
       (if part_type p = ascii ''text''
        then content @ (case part_text p of Some t \<Rightarrow> t | None \<Rightarrow> [])
        else content)"

definition extractMessageContent :: "message \<Rightarrow> jsstring" where
  "extractMessageContent msg =
     (let ps = (case msg_parts msg of Some ps \<Rightarrow> ps | None \<Rightarrow> [])
      in if length ps = 0 then [] else trim (concatTextParts ps []))"

text \<open>
  The loop of \<open>getLatestExchange\<close>, \<open>for (i = messages.length - 1; i >= 0; i--)\<close>:
  \<open>exchangeScan messages n lastAssistantIdx\<close> has the indices below \<open>n\<close> still to
  visit and returns \<open>(lastUserIdx, lastAssistantIdx)\<close>, -1 meaning not found; finding
  the user message is the \<open>break\<close>.
\<close>

fun exchangeScan :: "message list \<Rightarrow> nat \<Rightarrow> int \<Rightarrow> int \<times> int" where
  "exchangeScan messages 0 lastAssistantIdx = (- 1, lastAssistantIdx)"
| "exchangeScan messages (Suc i) lastAssistantIdx =
     (let r = roleOf (messages ! i);
          lastAssistantIdx =
            (if r = Some (ascii ''assistant'') \<and> lastAssistantIdx = - 1
             then int i else lastAssistantIdx)
      in if r = Some (ascii ''user'') \<and> lastAssistantIdx \<noteq> - 1
         then (int i, lastAssistantIdx)
         else exchangeScan messages i lastAssistantIdx)"

definition getLatestExchange :: "message list \<Rightarrow> (message \<times> message) option" where
  "getLatestExchange messages =
     (case exchangeScan messages (length messages) (- 1) of
        (lastUserIdx, lastAssistantIdx) \<Rightarrow>
          if lastUserIdx = - 1 \<or> lastAssistantIdx = - 1 then None
          else Some (messages ! nat lastUserIdx, messages ! nat lastAssistantIdx))"

section \<open>The bridge state\<close>

text \<open>
  The module-level maps and sets of the bot: \<open>sessionToThread\<close>, \<open>threadToSession\<close>,
  \<open>lastPostedContent\<close>, \<open>discordInitiatedSessions\<close> and \<open>subscribedThreads\<close>.
\<close>

record posted =
  userContent :: jsstring
  assistantContent :: jsstring

record bridge =
  sessionToThread :: "jsstring \<rightharpoonup> jsstring"
  threadToSession :: "jsstring \<rightharpoonup> jsstring"
  lastPostedContent :: "jsstring \<rightharpoonup> posted"
  discordInitiatedSessions :: "jsstring set"
  subscribedThreads :: "jsstring set"

definition initialBridge :: bridge where
  "initialBridge =
     \<lparr>sessionToThread = Map.empty, threadToSession = Map.empty,
      lastPostedContent = Map.empty, discordInitiatedSessions = {},
      subscribedThreads = {}\<rparr>"

definition getThread :: "bridge \<Rightarrow> jsstring \<Rightarrow> jsstring option" where
  "getThread st sessionId = sessionToThread st sessionId"

definition getSession :: "bridge \<Rightarrow> jsstring \<Rightarrow> jsstring option" where
  "getSession st threadId = threadToSession st threadId"

text \<open>\<open>discordInitiatedSessions.add(id)\<close>, in \<open>handleNewCommand\<close> and the message handler.\<close>

definition markChatInitiated :: "bridge \<Rightarrow> jsstring \<Rightarrow> bridge" where
  "markChatInitiated st sessionId =
     st\<lparr>discordInitiatedSessions := insert sessionId (discordInitiatedSessions st)\<rparr>"

text \<open>
  The duplicate check of \<open>handleSessionIdle\<close> (\<open>lastPosted && lastPosted.userContent
  === userContent && lastPosted.assistantContent === assistantContent\<close> returns early)
  and its \<open>lastPostedContent.set\<close>.
\<close>

definition shouldPost :: "bridge \<Rightarrow> jsstring \<Rightarrow> jsstring \<Rightarrow> jsstring \<Rightarrow> bool" where
  "shouldPost st sessionId userText assistantText =
     (case lastPostedContent st sessionId of
        None \<Rightarrow> True
      | Some lastPosted \<Rightarrow>
          \<not> (userContent lastPosted = userText \<and> assistantContent lastPosted = assistantText))"

definition recordPosted :: "bridge \<Rightarrow> jsstring \<Rightarrow> jsstring \<Rightarrow> jsstring \<Rightarrow> bridge" where
  "recordPosted st sessionId userText assistantText =
     st\<lparr>lastPostedContent := (lastPostedContent st)
          (sessionId \<mapsto> \<lparr>userContent = userText, assistantContent = assistantText\<rparr>)\<rparr>"

section \<open>The chat platform and the backend\<close>

text \<open>
  The calls that leave the process, in the order they are made, and what the outside
  answers to them during one handler run.
\<close>

datatype action =
    Fetch_messages jsstring
  | Start_thread jsstring jsstring
  | Fetch_channel jsstring
  | Send jsstring jsstring

text \<open>
  What \<open>createSyncThread\<close> meets: no sync channel (it returns null before any call
  to the platform), a platform call of its \<open>try\<close> block throwing (it returns null), or
  the thread that \<open>startThread\<close> yields.
\<close>

datatype thread_result = No_channel | Start_throws | Thread_id jsstring

record world =
  session_messages :: "jsstring \<Rightarrow> message list option"
  started_thread :: "jsstring \<Rightarrow> thread_result"
  fetched_is_thread :: "jsstring \<Rightarrow> bool option"
  send_ok :: "jsstring \<Rightarrow> jsstring \<Rightarrow> bool"

text \<open>
  \<open>session_messages w s\<close> is the message array \<open>opencode.session.messages\<close> yields for
  session \<open>s\<close>, \<open>None\<close> when the call throws. \<open>started_thread w s\<close> is what
  \<open>createSyncThread\<close> meets for \<open>s\<close>. \<open>fetched_is_thread w t\<close> is
  \<open>thread && thread.isThread()\<close> for the channel fetched under id \<open>t\<close>, \<open>None\<close>
  when the fetch throws. \<open>send_ok w t c\<close> tells whether \<open>thread.send(c)\<close> succeeds.
  \<open>Start_thread s name\<close> stands for the platform calls of the \<open>try\<close> block of
  \<open>createSyncThread\<close> (the starter message and \<open>startThread\<close>).
\<close>

definition createSyncThread ::
  "world \<Rightarrow> bridge \<Rightarrow> jsstring \<Rightarrow> jsstring \<Rightarrow> bridge \<times> jsstring option \<times> action list" where
  "createSyncThread w st sessionId title =
     (let name = (if slice title 0 100 \<noteq> [] then slice title 0 100
                  else ascii ''OpenCode Session'')
      in case started_thread w sessionId of
           No_channel \<Rightarrow> (st, None, [])
         | Start_throws \<Rightarrow> (st, None, [Start_thread sessionId name])
         | Thread_id threadId \<Rightarrow>
             (st\<lparr>sessionToThread := (sessionToThread st)(sessionId \<mapsto> threadId),
                 threadToSession := (threadToSession st)(threadId \<mapsto> sessionId),
                 subscribedThreads := insert threadId (subscribedThreads st)\<rparr>,
              Some threadId, [Start_thread sessionId name]))"

text \<open>The \<open>for\<close> loops of \<open>postToSyncThread\<close>: a \<open>send\<close> that throws ends the post.\<close>

fun sendAll :: "world \<Rightarrow> jsstring \<Rightarrow> jsstring list \<Rightarrow> bool \<times> action list" where
  "sendAll w threadId [] = (True, [])"
| "sendAll w threadId (c # cs) =
     (if send_ok w threadId c
      then (case sendAll w threadId cs of (ok, acts) \<Rightarrow> (ok, Send threadId c # acts))
      else (False, [Send threadId c]))"

definition labelled :: "jsstring \<Rightarrow> jsstring list \<Rightarrow> jsstring list" where
  "labelled label ps = (case ps of [] \<Rightarrow> [] | p # rest \<Rightarrow> (label @ p) # rest)"

definition splitIfPresent :: "jsstring \<Rightarrow> jsstring list option" where
  "splitIfPresent content = (if content \<noteq> [] then splitMessage content 1900 else Some [])"

definition postToSyncThread ::
  "world \<Rightarrow> jsstring \<Rightarrow> jsstring \<Rightarrow> jsstring \<Rightarrow> (bool \<times> action list) option" where
  "postToSyncThread w threadId userText assistantText =
     (if fetched_is_thread w threadId \<noteq> Some True then Some (False, [Fetch_channel threadId])
      else case splitIfPresent userText of
        None \<Rightarrow> None
      | Some userParts \<Rightarrow>
          (case sendAll w threadId (labelled (ascii ''**User:**'' @ [newline]) userParts) of
             (False, sent) \<Rightarrow> Some (False, Fetch_channel threadId # sent)
           | (True, sent) \<Rightarrow>
               (case splitIfPresent assistantText of
                  None \<Rightarrow> None
                | Some assistantParts \<Rightarrow>
                    (case sendAll w threadId
                            (labelled (ascii ''**Assistant:**'' @ [newline]) assistantParts) of
                       (ok, sent') \<Rightarrow> Some (ok, Fetch_channel threadId # sent @ sent')))))"

section \<open>handleSessionIdle\<close>

text \<open>
  The thread of the session, or a new one: \<open>sessionToThread.get(sessionId)\<close> and, when
  that is falsy, \<open>createSyncThread\<close> under a name cut from the user's text.
\<close>

definition getOrCreateThread ::
  "world \<Rightarrow> bridge \<Rightarrow> jsstring \<Rightarrow> jsstring \<Rightarrow> bridge \<times> jsstring option \<times> action list" where
  "getOrCreateThread w st sessionId userText =
     (let found = (case sessionToThread st sessionId of
                     Some threadId \<Rightarrow> threadId \<noteq> []
                   | None \<Rightarrow> False)
      in if found then (st, sessionToThread st sessionId, [])
         else createSyncThread w st sessionId
                (if slice userText 0 50 \<noteq> [] then slice userText 0 50
                 else ascii ''OpenCode Session''))"

text \<open>
  The result is the new state and the outside calls made; the \<open>try\<close>/\<open>catch\<close> of the
  source turns a throwing call into a return. \<open>None\<close> is a run that never returns.
  The value \<open>postToSyncThread\<close> returns is not looked at.
\<close>

definition handleSessionIdle ::
  "world \<Rightarrow> bridge \<Rightarrow> jsstring \<Rightarrow> (bridge \<times> action list) option" where
  "handleSessionIdle w st sessionId =
     (if sessionId \<in> discordInitiatedSessions st then Some (st, [])
      else case session_messages w sessionId of
        None \<Rightarrow> Some (st, [Fetch_messages sessionId])
      | Some messages \<Rightarrow>
          if length messages = 0 then Some (st, [Fetch_messages sessionId])
          else case getLatestExchange messages of
            None \<Rightarrow> Some (st, [Fetch_messages sessionId])
          | Some (userMessage, assistantMessage) \<Rightarrow>
              let userText = extractMessageContent userMessage;
                  assistantText = extractMessageContent assistantMessage
              in if userText = [] \<and> assistantText = []
                 then Some (st, [Fetch_messages sessionId])
                 else if \<not> shouldPost st sessionId userText assistantText
                 then Some (st, [Fetch_messages sessionId])
                 else case getOrCreateThread w st sessionId userText of
                   (st1, None, made) \<Rightarrow> Some (st1, Fetch_messages sessionId # made)
                 | (st1, Some threadId, made) \<Rightarrow>
                     (case postToSyncThread w threadId userText assistantText of
                        None \<Rightarrow> None
                      | Some (ok, sent) \<Rightarrow>
                          Some (recordPosted st1 sessionId userText assistantText,
                                Fetch_messages sessionId # made @ sent)))"

section \<open>The /sync/session endpoint\<close>











section \<open>The event consumer\<close>

text \<open>
  An event after \<open>event?.payload || event\<close>: its \<open>type\<close> and the fields of
  \<open>properties\<close> the consumer reads (\<open>sessionID\<close>, \<open>sessionId\<close>, \<open>status.type\<close>).
\<close>

record event =
  event_type :: "jsstring option"
  prop_sessionID :: "jsstring option"
  prop_sessionId :: "jsstring option"
  prop_status_type :: "jsstring option"

text \<open>\<open>setTimeout\<close> calls: the callback and the delay in milliseconds.\<close>

datatype timer =
    Idle_timer jsstring nat
  | Resubscribe_timer nat

definition deleteSession :: "bridge \<Rightarrow> jsstring \<Rightarrow> bridge" where
  "deleteSession st sessionId =
     st\<lparr>sessionToThread := (sessionToThread st)(sessionId := None),
        lastPostedContent := (lastPostedContent st)(sessionId := None),
        discordInitiatedSessions := discordInitiatedSessions st - {sessionId}\<rparr>"

text \<open>
  The body of the \<open>for await\<close> loop for one event. An idle status schedules
  \<open>handleSessionIdle\<close> after 100 ms; a deletion runs the three \<open>delete\<close> calls
  (\<open>threadToSession\<close> is not among them). The empty string is falsy.
\<close>

definition processEvent :: "bridge \<Rightarrow> event \<Rightarrow> bridge \<times> timer list" where
  "processEvent st ev =
     (let timers =
            (if event_type ev = Some (ascii ''session.status'')
             then (case prop_sessionID ev of
                     Some sessionId \<Rightarrow>
                       if sessionId \<noteq> [] \<and> prop_status_type ev = Some (ascii ''idle'')
                       then [Idle_timer sessionId 100] else []
                   | None \<Rightarrow> [])
             else []);
          st' =
            (if event_type ev = Some (ascii ''session.deleted'')
             then (case prop_sessionId ev of
                     Some sessionId \<Rightarrow>
                       if sessionId \<noteq> [] then deleteSession st sessionId else st
                   | None \<Rightarrow> st)
             else st)
      in (st', timers))"

fun processEvents :: "bridge \<Rightarrow> event list \<Rightarrow> bridge \<times> timer list" where
  "processEvents st [] = (st, [])"
| "processEvents st (ev # evs) =
     (case processEvent st ev of
        (st1, timers) \<Rightarrow>
          (case processEvents st1 evs of (st2, timers') \<Rightarrow> (st2, timers @ timers')))"

text \<open>
  A feed that terminates: \<open>opencode.global.event()\<close> throws, or the stream delivers
  events and then ends or throws.
\<close>

datatype feed_end = Feed_ends | Feed_throws

datatype feed = Subscribe_throws | Feed "event list" feed_end

definition startGlobalEventSubscription :: "feed \<Rightarrow> bridge \<Rightarrow> bridge \<times> timer list" where
  "startGlobalEventSubscription f st =
     (case f of
        Subscribe_throws \<Rightarrow> (st, [Resubscribe_timer 10000])
      | Feed evs e \<Rightarrow>
          (case processEvents st evs of
             (st', timers) \<Rightarrow>
               (case e of
                  Feed_ends \<Rightarrow> (st', timers)
                | Feed_throws \<Rightarrow> (st', timers @ [Resubscribe_timer 10000]))))"

text \<open>
  \<open>setTimeout(startGlobalEventSubscription, 10000)\<close> invokes the function again when
  the timer fires. \<open>subscriptionRuns st feeds\<close> counts the invocations made when the
  \<open>n\<close>-th invocation meets the \<open>n\<close>-th feed of the list: the run goes on as long as
  an invocation leaves the timer behind.
\<close>

definition feedThrows :: "feed \<Rightarrow> bool" where
  "feedThrows f = (case f of Subscribe_throws \<Rightarrow> True | Feed evs e \<Rightarrow> e = Feed_throws)"

fun subscriptionRuns :: "bridge \<Rightarrow> feed list \<Rightarrow> nat" where
  "subscriptionRuns st [] = 0"
| "subscriptionRuns st (f # fs) =
     (case startGlobalEventSubscription f st of
        (st', timers) \<Rightarrow>
          if Resubscribe_timer 10000 \<in> set timers then Suc (subscriptionRuns st' fs)
          else 1)"

section \<open>The model menu pages\<close>

record model =
  model_id :: jsstring
  model_name :: jsstring

datatype button_style = Primary | Secondary | Success

text \<open>The custom ids \<open>model_<index>\<close> and \<open>models_page_<page>\<close>.\<close>

datatype custom_id = Model_button nat | Models_page nat

record button =
  customId :: custom_id
  label :: jsstring
  style :: button_style

definition modelButton :: "jsstring \<Rightarrow> nat \<Rightarrow> model list \<Rightarrow> nat \<Rightarrow> button" where
  "modelButton currentModel start pageModels j =
     (let model = pageModels ! j; globalIdx = start + j
      in \<lparr>customId = Model_button globalIdx,
          label = slice (model_name model) 0 80,
          style = (if model_id model = currentModel then Success else Secondary)\<rparr>)"

definition buttonsPerRow :: nat where
  "buttonsPerRow = 5"

definition pageSize :: nat where
  "pageSize = 20"

function pageRows :: "jsstring \<Rightarrow> nat \<Rightarrow> model list \<Rightarrow> nat \<Rightarrow> button list list" where
  "pageRows currentModel start pageModels i =
     (if i < length pageModels
      then map (modelButton currentModel start pageModels)
             [i ..< min (i + buttonsPerRow) (length pageModels)]
           # pageRows currentModel start pageModels (i + buttonsPerRow)
      else [])"
  by pat_completeness auto
termination
  by (relation "measure (\<lambda>(c, s, pageModels, i). length pageModels - i)")
     (auto simp: buttonsPerRow_def)

definition pageButtonMap :: "nat \<Rightarrow> model list \<Rightarrow> (nat \<rightharpoonup> model)" where
  "pageButtonMap start pageModels =
     fold (\<lambda>j m. m(start + j \<mapsto> pageModels ! j)) [0 ..< length pageModels] Map.empty"

record page_view =
  components :: "button list list"
  buttonMap :: "nat \<rightharpoonup> model"

text \<open>
  The \<open>models_page_\<close> branch of \<open>handleButtonInteraction\<close>, from the parsed page
  number to the rows handed to \<open>interaction.update\<close> and the button map stored for
  the interaction.
\<close>

definition handleModelsPage :: "model list \<Rightarrow> jsstring \<Rightarrow> nat \<Rightarrow> page_view" where
  "handleModelsPage models currentModel page =
     (let start = page * pageSize;
          pageModels = slice models (int start) (int (start + pageSize));
          rows = pageRows currentModel start pageModels 0;
          navRow =
            (if page > 0
             then [\<lparr>customId = Models_page (page - 1), label = ascii ''Previous'',
                    style = Primary\<rparr>]
             else [])
            @ (if start + pageSize < length models
               then [\<lparr>customId = Models_page (page + 1), label = ascii ''Next'',
                      style = Primary\<rparr>]
               else [])
      in \<lparr>components = (if length navRow > 0 then rows @ [navRow] else rows),
          buttonMap = pageButtonMap start pageModels\<rparr>)"

section \<open>Example data\<close>

text \<open>Messages with one text part; the role sits at \<open>msg.role\<close> or at \<open>msg.info.role\<close>.\<close>

definition textMessage :: "string \<Rightarrow> string \<Rightarrow> message" where
  "textMessage r t =
     \<lparr>msg_role = Some (ascii r), msg_info_role = None,
      msg_parts = Some [\<lparr>part_type = ascii ''text'', part_text = Some (ascii t)\<rparr>]\<rparr>"

definition infoMessage :: "string \<Rightarrow> string \<Rightarrow> message" where
  "infoMessage r t =
     \<lparr>msg_role = None, msg_info_role = Some (ascii r),
      msg_parts = Some [\<lparr>part_type = ascii ''text'', part_text = Some (ascii t)\<rparr>]\<rparr>"

text \<open>
  The session of the end-to-end scenario, and four answers of the outside: everything
  succeeds; every \<open>send\<close> throws; no thread can be started; a second thread is
  started.
\<close>

definition exSession :: jsstring where
  "exSession = ascii ''abc123''"

definition exThread :: jsstring where
  "exThread = ascii ''T1''"

definition exMessages :: "message list" where
  "exMessages =
     [textMessage ''user'' ''fix the bug'', textMessage ''assistant'' ''fixed it in main.go'']"

definition healthyWorld :: world where
  "healthyWorld =
     \<lparr>session_messages = (\<lambda>s. Some exMessages), started_thread = (\<lambda>s. Thread_id exThread),
      fetched_is_thread = (\<lambda>t. Some True), send_ok = (\<lambda>t c. True)\<rparr>"

definition sendFailsWorld :: world where
  "sendFailsWorld =
     \<lparr>session_messages = (\<lambda>s. Some exMessages), started_thread = (\<lambda>s. Thread_id exThread),
      fetched_is_thread = (\<lambda>t. Some True), send_ok = (\<lambda>t c. False)\<rparr>"

definition noThreadWorld :: world where
  "noThreadWorld =
     \<lparr>session_messages = (\<lambda>s. Some exMessages), started_thread = (\<lambda>s. No_channel),
      fetched_is_thread = (\<lambda>t. Some True), send_ok = (\<lambda>t c. True)\<rparr>"

definition secondThreadWorld :: world where
  "secondThreadWorld =
     \<lparr>session_messages = (\<lambda>s. Some exMessages), started_thread = (\<lambda>s. Thread_id (ascii ''T2'')),
      fetched_is_thread = (\<lambda>t. Some True), send_ok = (\<lambda>t c. True)\<rparr>"

text \<open>The state after the session was bound to its thread and its exchange recorded.\<close>

definition boundBridge :: bridge where
  "boundBridge =
     recordPosted
       (fst (createSyncThread healthyWorld initialBridge exSession (ascii ''fix the bug'')))
       exSession (ascii ''fix the bug'') (ascii ''fixed it in main.go'')"

definition deletedEvent :: event where
  "deletedEvent =
     \<lparr>event_type = Some (ascii ''session.deleted''), prop_sessionID = None,
      prop_sessionId = Some exSession, prop_status_type = None\<rparr>"

definition idleEvent :: event where
  "idleEvent =
     \<lparr>event_type = Some (ascii ''session.status''), prop_sessionID = Some exSession,
      prop_sessionId = None, prop_status_type = Some (ascii ''idle'')\<rparr>"

text \<open>Forty-seven models, the model at index \<open>i\<close> named by the code unit \<open>i\<close>.\<close>

definition exModels :: "model list" where
  "exModels = map (\<lambda>i. \<lparr>model_id = ascii ''m'' @ [of_nat i], model_name = [of_nat i]\<rparr>) [0 ..< 47]"

section \<open>Properties of splitMessage\<close>

lemma lastIndexFrom_range: "- 1 \<le> lastIndexFrom s c i \<and> lastIndexFrom s c i \<le> int i"
  by (induction i) auto

lemma lastIndexFrom_none:
  "lastIndexFrom s c i = - 1 \<Longrightarrow> j \<le> i \<Longrightarrow> s ! j \<noteq> c"
proof (induction i)
  case 0
  then show ?case by (auto split: if_splits)
next
  case (Suc i)
  then show ?case by (cases "j = Suc i") (auto split: if_splits)
qed

lemma lastIndexFrom_some:
  "lastIndexFrom s c i = int r \<Longrightarrow>
     r \<le> i \<and> s ! r = c \<and> (\<forall>j. r < j \<and> j \<le> i \<longrightarrow> s ! j \<noteq> c)"
proof (induction i)
  case 0
  then show ?case by (auto split: if_splits)
next
  case (Suc i)
  show ?case
  proof (cases "s ! Suc i = c")
    case True
    with Suc.prems have "int (Suc i) = int r" by simp
    then have "r = Suc i" by linarith
    with True show ?thesis by auto
  next
    case False
    with Suc.prems have "lastIndexFrom s c i = int r" by simp
    from Suc.IH [OF this] False show ?thesis
      by (auto simp: le_Suc_eq)
  qed
qed

lemma lastIndexOf_range: "- 1 \<le> lastIndexOf s c p \<and> lastIndexOf s c p \<le> int p"
  using lastIndexFrom_range [of s c "min p (length s - 1)"]
  by (auto simp: lastIndexOf_def)

lemma lastIndexOf_none:
  assumes "lastIndexOf s c p = - 1" and "p < length s"
  shows "\<not> latestAt s c p i"
proof -
  from assms have "lastIndexFrom s c p = - 1"
    by (auto simp: lastIndexOf_def min_def split: if_splits)
  then show ?thesis
    using lastIndexFrom_none [of s c p i] by (auto simp: latestAt_def)
qed

lemma lastIndexOf_some:
  assumes "lastIndexOf s c p = int r" and "p < length s"
  shows "latestAt s c p r"
proof -
  from assms have "lastIndexFrom s c p = int r"
    by (auto simp: lastIndexOf_def min_def split: if_splits)
  from lastIndexFrom_some [OF this] assms(2) show ?thesis
    by (auto simp: latestAt_def)
qed

lemma latestAt_unique: "latestAt s c p i \<Longrightarrow> latestAt s c p j \<Longrightarrow> i = j"
proof (rule ccontr)
  assume a: "latestAt s c p i" "latestAt s c p j" and "i \<noteq> j"
  then consider "i < j" | "j < i" by linarith
  then show False
  proof cases
    case 1
    with a show False by (auto simp: latestAt_def)
  next
    case 2
    with a show False by (auto simp: latestAt_def)
  qed
qed

lemma lastIndexOf_latestAt:
  assumes "p < length s"
  shows "latestAt s c p i \<longleftrightarrow> lastIndexOf s c p = int i"
proof
  assume L: "latestAt s c p i"
  have "lastIndexOf s c p \<noteq> - 1"
    using lastIndexOf_none [OF _ assms, of c i] L by blast
  with lastIndexOf_range [of s c p] obtain r where R: "lastIndexOf s c p = int r"
    by (cases "lastIndexOf s c p") auto
  from lastIndexOf_some [OF R assms] L have "r = i" by (rule latestAt_unique)
  with R show "lastIndexOf s c p = int i" by simp
next
  assume "lastIndexOf s c p = int i"
  from lastIndexOf_some [OF this assms] show "latestAt s c p i" .
qed

lemma lastIndexOf_low:
  assumes "p < length s" and "\<not> (\<exists>i. latestAt s c p i \<and> m \<le> 2 * i)"
  shows "lastIndexOf s c p = - 1 \<or> 2 * lastIndexOf s c p < int m"
proof (cases "lastIndexOf s c p")
  case (nonneg r)
  with assms(1) have "latestAt s c p r" by (simp add: lastIndexOf_latestAt)
  with assms(2) have "\<not> m \<le> 2 * r" by blast
  with nonneg show ?thesis by simp
next
  case (neg n)
  with lastIndexOf_range [of s c p] show ?thesis by simp
qed

lemma chooseSplitIndex_bounds:
  "int m \<le> 2 * chooseSplitIndex s m \<and> chooseSplitIndex s m \<le> int m"
  using lastIndexOf_range [of s newline m] lastIndexOf_range [of s space m]
  by (auto simp: chooseSplitIndex_def Let_def)

lemma chooseSplitIndex_newline:
  assumes "m < length s" and "latestAt s newline m i" and "m \<le> 2 * i"
  shows "chooseSplitIndex s m = int i"
proof -
  from assms(1,2) have "lastIndexOf s newline m = int i" by (simp add: lastIndexOf_latestAt)
  with assms(3) show ?thesis by (simp add: chooseSplitIndex_def)
qed

lemma chooseSplitIndex_space:
  assumes "m < length s" and "\<not> (\<exists>i. latestAt s newline m i \<and> m \<le> 2 * i)"
    and "latestAt s space m i" and "m \<le> 2 * i"
  shows "chooseSplitIndex s m = int i"
proof -
  from assms(1,3) have "lastIndexOf s space m = int i" by (simp add: lastIndexOf_latestAt)
  with lastIndexOf_low [OF assms(1,2)] assms(4) show ?thesis
    by (auto simp: chooseSplitIndex_def Let_def)
qed

lemma chooseSplitIndex_forced:
  assumes "m < length s" and "\<not> (\<exists>i. latestAt s newline m i \<and> m \<le> 2 * i)"
    and "\<not> (\<exists>i. latestAt s space m i \<and> m \<le> 2 * i)"
  shows "chooseSplitIndex s m = int m"
  using lastIndexOf_low [OF assms(1,2)] lastIndexOf_low [OF assms(1,3)]
  by (auto simp: chooseSplitIndex_def Let_def)

lemma slice_take: "0 \<le> k \<Longrightarrow> slice s 0 k = take (nat k) s"
  by (simp add: slice_def sliceIndex_def Let_def min_def)

lemma sliceFrom_drop: "0 \<le> k \<Longrightarrow> sliceFrom s k = drop (nat k) s"
  by (simp add: sliceFrom_def sliceIndex_def min_def)

lemma length_trim: "length (trim s) \<le> length s"
proof -
  have "length (trim s) \<le> length (dropWhile isWhiteSpace s)"
    unfolding trim_def
    using length_dropWhile_le [of isWhiteSpace "rev (dropWhile isWhiteSpace s)"]
    by simp
  also have "\<dots> \<le> length s" by (rule length_dropWhile_le)
  finally show ?thesis .
qed

lemma splitLoop_step:
  assumes "m < length rem"
  shows "splitLoop m rem parts =
           splitLoop m (trim (drop (nat (chooseSplitIndex rem m)) rem))
             (parts @ [take (nat (chooseSplitIndex rem m)) rem])"
proof -
  have k: "0 \<le> chooseSplitIndex rem m"
    using chooseSplitIndex_bounds [of m rem] by linarith
  from assms have "rem \<noteq> []" "\<not> length rem \<le> m" by auto
  then show ?thesis
    by (subst splitLoop.simps) (simp add: slice_take [OF k] sliceFrom_drop [OF k])
qed

text \<open>
  With a limit of at least 1 every iteration cuts at least one code unit off, so the
  loop ends. What it appends: segments that are never empty and never longer than the
  limit, the first of them cut at the chosen index, and all but the last at least half
  the limit long.
\<close>

lemma splitLoop_total:
  assumes m: "1 \<le> m"
  shows "\<exists>new. splitLoop m rem parts = Some (parts @ new)
           \<and> (\<forall>p \<in> set new. p \<noteq> [] \<and> length p \<le> m)
           \<and> (rem \<noteq> [] \<longrightarrow> new \<noteq> []
                \<and> hd new = (if length rem \<le> m then rem
                             else take (nat (chooseSplitIndex rem m)) rem))
           \<and> (\<forall>p \<in> set (butlast new). m \<le> 2 * length p)"
proof (induction "length rem" arbitrary: rem parts rule: less_induct)
  case less
  show ?case
  proof (cases "rem = []")
    case True
    then have "splitLoop m rem parts = Some (parts @ [])"
      by (subst splitLoop.simps) simp
    with True show ?thesis by fastforce
  next
    case False
    show ?thesis
    proof (cases "length rem \<le> m")
      case True
      with False have "splitLoop m rem parts = Some (parts @ [rem])"
        by (subst splitLoop.simps) simp
      with True False show ?thesis by fastforce
    next
      case False
      define k where "k = nat (chooseSplitIndex rem m)"
      define seg where "seg = take k rem"
      define rem' where "rem' = trim (drop k rem)"
      from False have long: "m < length rem" by simp
      have kb: "m \<le> 2 * k" "k \<le> m"
        using chooseSplitIndex_bounds [of m rem] by (auto simp: k_def)
      with m have k1: "1 \<le> k" by linarith
      have lseg: "length seg = k" using kb long by (simp add: seg_def)
      have "length rem' \<le> length (drop k rem)" unfolding rem'_def by (rule length_trim)
      with k1 long have shorter: "length rem' < length rem" by simp
      from less [OF shorter, of "parts @ [seg]"] obtain new where
        n1: "splitLoop m rem' (parts @ [seg]) = Some ((parts @ [seg]) @ new)" and
        n2: "\<forall>p \<in> set new. p \<noteq> [] \<and> length p \<le> m" and
        n3: "\<forall>p \<in> set (butlast new). m \<le> 2 * length p"
        by blast
      have step: "splitLoop m rem parts = splitLoop m rem' (parts @ [seg])"
        unfolding rem'_def seg_def k_def by (rule splitLoop_step [OF long])
      have a: "splitLoop m rem parts = Some (parts @ (seg # new))"
        using step n1 by simp
      have b: "\<forall>p \<in> set (seg # new). p \<noteq> [] \<and> length p \<le> m"
        using n2 lseg k1 kb by auto
      have c: "hd (seg # new) = take (nat (chooseSplitIndex rem m)) rem"
        by (simp add: seg_def k_def)
      have d: "\<forall>p \<in> set (butlast (seg # new)). m \<le> 2 * length p"
        using n3 lseg kb by auto
      from a b c d False show ?thesis by (intro exI [of _ "seg # new"]) simp
    qed
  qed
qed

lemma splitMessage_total: "1 \<le> m \<Longrightarrow> \<exists>ps. splitMessage s m = Some ps"
  using splitLoop_total [of m s "[]"] by (auto simp: splitMessage_def)

lemmas split_eval =
  splitMessage_def splitLoop.simps chooseSplitIndex_def lastIndexOf_def slice_def
  sliceFrom_def sliceIndex_def trim_def isWhiteSpace_def ascii_def newline_def space_def
  Let_def

text \<open>
  C8, as stated, fails. The text below is longer than the limit 10 and has a newline at
  index 1, the latest at or before the limit; the first segment is nevertheless cut at
  index 10, because the source passes over a newline or space whose index is below
  half the limit.
\<close>

theorem splitMessage_early_newline_counterexample:
  "latestAt (ascii ''a'' @ [newline] @ ascii ''bbbbbbbbbbbbbb'') newline 10 1
   \<and> splitMessage (ascii ''a'' @ [newline] @ ascii ''bbbbbbbbbbbbbb'') 10
       = Some [ascii ''a'' @ [newline] @ ascii ''bbbbbbbb'', ascii ''bbbbbb'']"
proof -
  have "lastIndexOf (ascii ''a'' @ [newline] @ ascii ''bbbbbbbbbbbbbb'') newline 10 = int 1"
    by (simp add: split_eval)
  then have "latestAt (ascii ''a'' @ [newline] @ ascii ''bbbbbbbbbbbbbb'') newline 10 1"
    by (rule lastIndexOf_some) (simp add: ascii_def)
  then show ?thesis by (simp add: split_eval)
qed

text \<open>
  C8, amended: for a limit of at least 1 and a text longer than the limit, the split
  ends and no segment is longer than the limit; the first segment is cut at the latest
  newline at or before the limit when the index of that newline is at least half the
  limit; failing that, at the latest space at or before the limit when its index is at
  least half the limit; failing both, exactly at the limit.
\<close>

theorem splitMessage_first_split:
  assumes "1 \<le> maxLength" and "maxLength < length text"
  shows "\<exists>parts. splitMessage text maxLength = Some parts \<and> parts \<noteq> []
           \<and> (\<forall>p \<in> set parts. length p \<le> maxLength)
           \<and> (\<forall>i. latestAt text newline maxLength i \<and> maxLength \<le> 2 * i
                  \<longrightarrow> hd parts = take i text)
           \<and> (\<not> (\<exists>i. latestAt text newline maxLength i \<and> maxLength \<le> 2 * i)
                \<longrightarrow> (\<forall>i. latestAt text space maxLength i \<and> maxLength \<le> 2 * i
                       \<longrightarrow> hd parts = take i text))
           \<and> (\<not> (\<exists>i. latestAt text newline maxLength i \<and> maxLength \<le> 2 * i)
                \<and> \<not> (\<exists>i. latestAt text space maxLength i \<and> maxLength \<le> 2 * i)
                \<longrightarrow> hd parts = take maxLength text)"
proof -
  from assms(2) have ne: "text \<noteq> []" by auto
  from splitLoop_total [OF assms(1), of "text" "[]"] ne assms(2) obtain new where
    run: "splitLoop maxLength text [] = Some new" and "new \<noteq> []" and
    bound: "\<forall>p \<in> set new. length p \<le> maxLength" and
    first: "hd new = take (nat (chooseSplitIndex text maxLength)) text"
    by auto
  from run assms(2) have "splitMessage text maxLength = Some new"
    by (simp add: splitMessage_def)
  moreover have "\<forall>i. latestAt text newline maxLength i \<and> maxLength \<le> 2 * i
                  \<longrightarrow> hd new = take i text"
    using first chooseSplitIndex_newline [OF assms(2)] by auto
  moreover have "\<not> (\<exists>i. latestAt text newline maxLength i \<and> maxLength \<le> 2 * i)
                \<longrightarrow> (\<forall>i. latestAt text space maxLength i \<and> maxLength \<le> 2 * i
                       \<longrightarrow> hd new = take i text)"
    using first chooseSplitIndex_space [OF assms(2)] by auto
  moreover have "\<not> (\<exists>i. latestAt text newline maxLength i \<and> maxLength \<le> 2 * i)
                \<and> \<not> (\<exists>i. latestAt text space maxLength i \<and> maxLength \<le> 2 * i)
                \<longrightarrow> hd new = take maxLength text"
    using first chooseSplitIndex_forced [OF assms(2)] by auto
  ultimately show ?thesis using \<open>new \<noteq> []\<close> bound by blast
qed

lemma ex_newline_latest: "latestAt (ascii ''aaaaaa'' @ [newline] @ ascii ''bbbbbbbb'') newline 10 6"
  by (rule lastIndexOf_some) (simp_all add: split_eval)

lemma no_latest:
  assumes "p < length s" and "lastIndexOf s c p = r" and "r < 0 \<or> 2 * r < int m"
  shows "\<not> (\<exists>i. latestAt s c p i \<and> m \<le> 2 * i)"
  using assms by (auto simp: lastIndexOf_latestAt)

lemma ex_space_no_newline: "\<not> (\<exists>i. latestAt (ascii ''hello world foo bar'') newline 10 i \<and> 10 \<le> 2 * i)"
  by (rule no_latest [where r = "- 1"]) (simp_all add: split_eval)

lemma ex_forced_no_newline: "\<not> (\<exists>i. latestAt (ascii ''a'' @ [newline] @ ascii ''bbbbbbbbbbbbbb'') newline 10 i \<and> 10 \<le> 2 * i)"
  by (rule no_latest [where r = 1]) (simp_all add: split_eval)

lemma ex_space_latest: "latestAt (ascii ''hello world foo bar'') space 10 5"
  by (rule lastIndexOf_some) (simp_all add: split_eval)

lemma ex_forced_no_space: "\<not> (\<exists>i. latestAt (ascii ''a'' @ [newline] @ ascii ''bbbbbbbbbbbbbb'') space 10 i \<and> 10 \<le> 2 * i)"
  by (rule no_latest [where r = "- 1"]) (simp_all add: split_eval)

theorem splitMessage_first_split_witness:
  "(1::nat) \<le> 10
   \<and> 10 < length (ascii ''aaaaaa'' @ [newline] @ ascii ''bbbbbbbb'')
   \<and> latestAt (ascii ''aaaaaa'' @ [newline] @ ascii ''bbbbbbbb'') newline 10 6
   \<and> (10::nat) \<le> 2 * 6
   \<and> (\<exists>parts. splitMessage (ascii ''aaaaaa'' @ [newline] @ ascii ''bbbbbbbb'') 10 = Some parts
        \<and> (\<forall>p \<in> set parts. length p \<le> 10) \<and> hd parts = ascii ''aaaaaa'')
   \<and> 10 < length (ascii ''hello world foo bar'')
   \<and> \<not> (\<exists>i. latestAt (ascii ''hello world foo bar'') newline 10 i \<and> 10 \<le> 2 * i)
   \<and> latestAt (ascii ''hello world foo bar'') space 10 5
   \<and> (10::nat) \<le> 2 * 5
   \<and> (\<exists>parts. splitMessage (ascii ''hello world foo bar'') 10 = Some parts
        \<and> (\<forall>p \<in> set parts. length p \<le> 10) \<and> hd parts = ascii ''hello'')
   \<and> 10 < length (ascii ''a'' @ [newline] @ ascii ''bbbbbbbbbbbbbb'')
   \<and> \<not> (\<exists>i. latestAt (ascii ''a'' @ [newline] @ ascii ''bbbbbbbbbbbbbb'') newline 10 i
              \<and> 10 \<le> 2 * i)
   \<and> \<not> (\<exists>i. latestAt (ascii ''a'' @ [newline] @ ascii ''bbbbbbbbbbbbbb'') space 10 i
              \<and> 10 \<le> 2 * i)
   \<and> (\<exists>parts. splitMessage (ascii ''a'' @ [newline] @ ascii ''bbbbbbbbbbbbbb'') 10 = Some parts
        \<and> (\<forall>p \<in> set parts. length p \<le> 10)
        \<and> hd parts = ascii ''a'' @ [newline] @ ascii ''bbbbbbbb'')"
proof -
  let ?A = "ascii ''aaaaaa'' @ [newline] @ ascii ''bbbbbbbb''"
  let ?B = "ascii ''hello world foo bar''"
  let ?C = "ascii ''a'' @ [newline] @ ascii ''bbbbbbbbbbbbbb''"
  have a: "(1::nat) \<le> 10" and b: "(10::nat) \<le> 2 * 6" and c: "(10::nat) \<le> 2 * 5"
    by simp_all
  have l1: "10 < length ?A" and l2: "10 < length ?B" and l3: "10 < length ?C"
    by (simp_all add: ascii_def)
  have h1: "take 6 ?A = ascii ''aaaaaa''"
    and h2: "take 5 ?B = ascii ''hello''"
    and h3: "take 10 ?C = ascii ''a'' @ [newline] @ ascii ''bbbbbbbb''"
    by (simp_all add: ascii_def)
  have c1: "\<exists>parts. splitMessage ?A 10 = Some parts
        \<and> (\<forall>p \<in> set parts. length p \<le> 10) \<and> hd parts = ascii ''aaaaaa''"
  proof -
    from splitMessage_first_split [OF a l1] obtain parts where
      p: "splitMessage ?A 10 = Some parts" "\<forall>p \<in> set parts. length p \<le> 10" and
      q: "\<forall>i. latestAt ?A newline 10 i \<and> 10 \<le> 2 * i \<longrightarrow> hd parts = take i ?A"
      by blast
    from q ex_newline_latest b have "hd parts = take 6 ?A" by blast
    with p show ?thesis unfolding h1 by blast
  qed
  have c2: "\<exists>parts. splitMessage ?B 10 = Some parts
        \<and> (\<forall>p \<in> set parts. length p \<le> 10) \<and> hd parts = ascii ''hello''"
  proof -
    from splitMessage_first_split [OF a l2] obtain parts where
      p: "splitMessage ?B 10 = Some parts" "\<forall>p \<in> set parts. length p \<le> 10" and
      q: "\<not> (\<exists>i. latestAt ?B newline 10 i \<and> 10 \<le> 2 * i)
           \<longrightarrow> (\<forall>i. latestAt ?B space 10 i \<and> 10 \<le> 2 * i \<longrightarrow> hd parts = take i ?B)"
      by blast
    from q ex_space_latest ex_space_no_newline c have "hd parts = take 5 ?B" by blast
    with p show ?thesis unfolding h2 by blast
  qed
  have c3: "\<exists>parts. splitMessage ?C 10 = Some parts
        \<and> (\<forall>p \<in> set parts. length p \<le> 10)
        \<and> hd parts = ascii ''a'' @ [newline] @ ascii ''bbbbbbbb''"
  proof -
    from splitMessage_first_split [OF a l3] obtain parts where
      p: "splitMessage ?C 10 = Some parts" "\<forall>p \<in> set parts. length p \<le> 10" and
      q: "\<not> (\<exists>i. latestAt ?C newline 10 i \<and> 10 \<le> 2 * i)
          \<and> \<not> (\<exists>i. latestAt ?C space 10 i \<and> 10 \<le> 2 * i)
          \<longrightarrow> hd parts = take 10 ?C"
      by blast
    from q ex_forced_no_newline ex_forced_no_space have "hd parts = take 10 ?C" by blast
    with p show ?thesis unfolding h3 by blast
  qed
  from a b c l1 l2 l3 ex_newline_latest ex_space_latest ex_space_no_newline ex_forced_no_newline ex_forced_no_space c1 c2 c3 show ?thesis by blast
qed

text \<open>
  C10: for a text that is not empty and a limit of at least 1, splitMessage returns,
  the list it returns is not empty, no segment in it is empty, and every segment but
  the last is at least half the limit long (so each iteration shortens the remainder
  by that much).
\<close>

theorem splitMessage_terminates_nonempty:
  assumes "text \<noteq> []" and "1 \<le> maxLength"
  shows "\<exists>parts. splitMessage text maxLength = Some parts \<and> parts \<noteq> []
           \<and> (\<forall>p \<in> set parts. p \<noteq> [])
           \<and> (\<forall>p \<in> set (butlast parts). maxLength \<le> 2 * length p)"
proof (cases "length text \<le> maxLength")
  case True
  with assms(1) show ?thesis by (simp add: splitMessage_def)
next
  case False
  from splitLoop_total [OF assms(2), of "text" "[]"] assms(1) obtain new where
    "splitLoop maxLength text [] = Some new" "new \<noteq> []"
    "\<forall>p \<in> set new. p \<noteq> [] \<and> length p \<le> maxLength"
    "\<forall>p \<in> set (butlast new). maxLength \<le> 2 * length p"
    by auto
  with False show ?thesis by (simp add: splitMessage_def)
qed

theorem splitMessage_terminates_nonempty_witness:
  "ascii ''hello world foo bar'' \<noteq> [] \<and> (1::nat) \<le> 10
   \<and> splitMessage (ascii ''hello world foo bar'') 10
       = Some [ascii ''hello'', ascii ''world foo'', ascii ''bar'']"
  using splitMessage_terminates_nonempty [of "ascii ''hello world foo bar''" 10]
  by (simp add: split_eval)

section \<open>Properties of getLatestExchange\<close>

lemma user_neq_assistant: "ascii ''user'' \<noteq> ascii ''assistant''"
  by (simp add: ascii_def)

lemma exchangeScan_no_assistant:
  "(\<forall>i < k. roleOf (ms ! i) \<noteq> Some (ascii ''assistant'')) \<Longrightarrow>
     exchangeScan ms k (- 1) = (- 1, - 1)"
  by (induction k) (simp_all add: Let_def)

lemma exchangeScan_skip:
  "j \<le> k \<Longrightarrow> (\<forall>i. j \<le> i \<and> i < k \<longrightarrow> roleOf (ms ! i) \<noteq> Some (ascii ''assistant'')) \<Longrightarrow>
     exchangeScan ms k (- 1) = exchangeScan ms j (- 1)"
proof (induction k)
  case 0
  then show ?case by simp
next
  case (Suc k)
  show ?case
  proof (cases "j = Suc k")
    case True
    then show ?thesis by simp
  next
    case False
    with Suc.prems have "j \<le> k" by simp
    moreover from Suc.prems have
      "\<forall>i. j \<le> i \<and> i < k \<longrightarrow> roleOf (ms ! i) \<noteq> Some (ascii ''assistant'')" by simp
    ultimately have "exchangeScan ms k (- 1) = exchangeScan ms j (- 1)" by (rule Suc.IH)
    moreover from Suc.prems \<open>j \<le> k\<close> have "roleOf (ms ! k) \<noteq> Some (ascii ''assistant'')"
      by simp
    ultimately show ?thesis by (simp add: Let_def)
  qed
qed

lemma exchangeScan_no_user:
  "a \<noteq> - 1 \<Longrightarrow> (\<forall>i < k. roleOf (ms ! i) \<noteq> Some (ascii ''user'')) \<Longrightarrow>
     exchangeScan ms k a = (- 1, a)"
  by (induction k) (simp_all add: Let_def)

lemma getLatestExchange_user_assistant:
  assumes "roleOf u = Some (ascii ''user'')" and "roleOf a = Some (ascii ''assistant'')"
  shows "getLatestExchange (pre @ [u, a]) = Some (u, a)"
proof -
  let ?ms = "pre @ [u, a]"
  have len: "length ?ms = Suc (Suc (length pre))" by simp
  have at_a: "?ms ! Suc (length pre) = a" by (simp add: nth_append)
  have at_u: "?ms ! length pre = u" by (simp add: nth_append)
  have "exchangeScan ?ms (Suc (Suc (length pre))) (- 1)
          = (int (length pre), int (Suc (length pre)))"
    using assms user_neq_assistant at_a at_u
    by (simp add: Let_def del: of_nat_Suc)
  then show ?thesis
    unfolding getLatestExchange_def len using at_a at_u by (simp del: of_nat_Suc)
qed

lemma getLatestExchange_no_assistant:
  assumes "\<forall>m \<in> set ms. roleOf m \<noteq> Some (ascii ''assistant'')"
  shows "getLatestExchange ms = None"
proof -
  from assms have "\<forall>i < length ms. roleOf (ms ! i) \<noteq> Some (ascii ''assistant'')" by simp
  then have "exchangeScan ms (length ms) (- 1) = (- 1, - 1)"
    by (rule exchangeScan_no_assistant)
  then show ?thesis by (simp add: getLatestExchange_def)
qed

lemma getLatestExchange_assistant_first:
  assumes "roleOf a = Some (ascii ''assistant'')"
    and "\<forall>m \<in> set post. roleOf m \<noteq> Some (ascii ''assistant'')"
    and "\<forall>m \<in> set pre. roleOf m \<noteq> Some (ascii ''user'')"
  shows "getLatestExchange (pre @ [a] @ post) = None"
proof -
  let ?ms = "pre @ [a] @ post"
  let ?n = "length pre"
  have at_a: "?ms ! ?n = a" by (simp add: nth_append)
  have post: "\<forall>i. Suc ?n \<le> i \<and> i < length ?ms \<longrightarrow> roleOf (?ms ! i) \<noteq> Some (ascii ''assistant'')"
  proof (intro allI impI)
    fix i assume i: "Suc ?n \<le> i \<and> i < length ?ms"
    then have "?ms ! i = post ! (i - Suc ?n)" by (auto simp: nth_append nth_Cons')
    moreover from i have "i - Suc ?n < length post" by auto
    ultimately show "roleOf (?ms ! i) \<noteq> Some (ascii ''assistant'')"
      using assms(2) by simp
  qed
  have pre: "\<forall>i < ?n. roleOf (?ms ! i) \<noteq> Some (ascii ''user'')"
    using assms(3) by (simp add: nth_append)
  have "exchangeScan ?ms (length ?ms) (- 1) = exchangeScan ?ms (Suc ?n) (- 1)"
    by (rule exchangeScan_skip [OF _ post]) simp
  also have "\<dots> = exchangeScan ?ms ?n (int ?n)"
    using assms(1) user_neq_assistant at_a by (simp add: Let_def)
  also have "\<dots> = (- 1, int ?n)"
    by (rule exchangeScan_no_user [OF _ pre]) simp
  finally show ?thesis by (simp add: getLatestExchange_def)
qed

text \<open>
  C3: for a message list ending in a user message immediately followed by an assistant
  message, getLatestExchange returns exactly that pair; for a list with no assistant
  message it returns null; and for a list whose last assistant message has every user
  message after it, it returns null.
\<close>

theorem getLatestExchange_correct:
  "(roleOf u = Some (ascii ''user'') \<and> roleOf a = Some (ascii ''assistant'')
      \<longrightarrow> getLatestExchange (pre @ [u, a]) = Some (u, a))
   \<and> ((\<forall>m \<in> set ms. roleOf m \<noteq> Some (ascii ''assistant''))
      \<longrightarrow> getLatestExchange ms = None)
   \<and> (roleOf a' = Some (ascii ''assistant'')
        \<and> (\<forall>m \<in> set post. roleOf m \<noteq> Some (ascii ''assistant''))
        \<and> (\<forall>m \<in> set pre'. roleOf m \<noteq> Some (ascii ''user''))
      \<longrightarrow> getLatestExchange (pre' @ [a'] @ post) = None)"
  using getLatestExchange_user_assistant [of u a pre]
    getLatestExchange_no_assistant [of ms]
    getLatestExchange_assistant_first [of a' post pre']
  by blast

lemma roleOf_textMessage: "r \<noteq> [] \<Longrightarrow> roleOf (textMessage r t) = Some (ascii r)"
  by (simp add: roleOf_def textMessage_def ascii_def)

lemma roleOf_infoMessage: "roleOf (infoMessage r t) = Some (ascii r)"
  by (simp add: roleOf_def infoMessage_def)

theorem getLatestExchange_correct_witness:
  "getLatestExchange
     [textMessage ''user'' ''q1'', textMessage ''assistant'' ''r1'',
      infoMessage ''user'' ''q2'', textMessage ''assistant'' ''r2'']
     = Some (infoMessage ''user'' ''q2'', textMessage ''assistant'' ''r2'')
   \<and> getLatestExchange [textMessage ''user'' ''q1'', infoMessage ''user'' ''q2''] = None
   \<and> getLatestExchange
       [textMessage ''tool'' ''t'', textMessage ''assistant'' ''r1'',
        textMessage ''user'' ''q1'', infoMessage ''user'' ''q2'']
     = None"
  using
    getLatestExchange_correct
      [of "infoMessage ''user'' ''q2''" "textMessage ''assistant'' ''r2''"
          "[textMessage ''user'' ''q1'', textMessage ''assistant'' ''r1'']"
          "[textMessage ''user'' ''q1'', infoMessage ''user'' ''q2'']"
          "textMessage ''assistant'' ''r1''"
          "[textMessage ''user'' ''q1'', infoMessage ''user'' ''q2'']"
          "[textMessage ''tool'' ''t'']"]
  by (simp add: roleOf_textMessage roleOf_infoMessage ascii_def)

section \<open>Properties of the bridge\<close>

lemmas ex_eval =
  exSession_def exThread_def exMessages_def healthyWorld_def sendFailsWorld_def
  noThreadWorld_def secondThreadWorld_def boundBridge_def deletedEvent_def idleEvent_def
  textMessage_def infoMessage_def initialBridge_def

lemmas idle_eval =
  handleSessionIdle_def getLatestExchange_def roleOf_def extractMessageContent_def
  shouldPost_def recordPosted_def getOrCreateThread_def createSyncThread_def
  postToSyncThread_def splitIfPresent_def labelled_def splitMessage_def
  slice_def sliceIndex_def trim_def isWhiteSpace_def Let_def

subsection \<open>The deduplication ledger\<close>

text \<open>
  C6: with no ledger entry for the session, shouldPost is true; after one record of
  the triple, shouldPost on the same triple is false; and shouldPost is false exactly
  when the session has an entry whose two texts equal the given ones.
\<close>

theorem shouldPost_record:
  "(lastPostedContent st sessionId = None \<longrightarrow> shouldPost st sessionId u a)
   \<and> \<not> shouldPost (recordPosted st sessionId u a) sessionId u a
   \<and> (\<not> shouldPost st sessionId u a \<longleftrightarrow>
        (\<exists>e. lastPostedContent st sessionId = Some e
             \<and> userContent e = u \<and> assistantContent e = a))"
  by (auto simp: shouldPost_def recordPosted_def split: option.splits)

theorem shouldPost_record_witness:
  "lastPostedContent initialBridge (ascii ''abc123'') = None
   \<and> shouldPost initialBridge (ascii ''abc123'') (ascii ''fix the bug'') (ascii ''fixed it'')
   \<and> \<not> shouldPost
         (recordPosted initialBridge (ascii ''abc123'') (ascii ''fix the bug'') (ascii ''fixed it''))
         (ascii ''abc123'') (ascii ''fix the bug'') (ascii ''fixed it'')"
  using shouldPost_record
    [of initialBridge "ascii ''abc123''" "ascii ''fix the bug''" "ascii ''fixed it''"]
  by (simp add: initialBridge_def)

lemma shouldPost_after_other_record:
  "shouldPost
     (recordPosted initialBridge exSession (ascii ''fix the bug'') (ascii ''fixed it''))
     exSession (ascii ''fix the bug'') (ascii ''fixed it again'')"
  by (simp add: shouldPost_def recordPosted_def ex_eval ascii_def)

subsection \<open>Deletion events\<close>

text \<open>
  C5: after the consumer handles a session.deleted event for a session S bound to a
  thread T, S has no thread, no ledger entry and is not in the chat-initiated set,
  while T still resolves to S: the reverse map is left as it was.
\<close>

theorem session_deleted_cleanup:
  assumes "event_type ev = Some (ascii ''session.deleted'')"
    and "prop_sessionId ev = Some S" and "S \<noteq> []"
    and "getThread st S = Some T" and "getSession st T = Some S"
  shows "getThread (fst (processEvent st ev)) S = None
         \<and> lastPostedContent (fst (processEvent st ev)) S = None
         \<and> S \<notin> discordInitiatedSessions (fst (processEvent st ev))
         \<and> getSession (fst (processEvent st ev)) T = Some S
         \<and> threadToSession (fst (processEvent st ev)) = threadToSession st"
  using assms
  by (simp add: processEvent_def deleteSession_def getThread_def getSession_def Let_def)

theorem session_deleted_cleanup_witness:
  "event_type deletedEvent = Some (ascii ''session.deleted'')
   \<and> prop_sessionId deletedEvent = Some exSession \<and> exSession \<noteq> []
   \<and> getThread boundBridge exSession = Some exThread
   \<and> getSession boundBridge exThread = Some exSession
   \<and> lastPostedContent boundBridge exSession
       = Some \<lparr>userContent = ascii ''fix the bug'',
               assistantContent = ascii ''fixed it in main.go''\<rparr>
   \<and> getThread (fst (processEvent boundBridge deletedEvent)) exSession = None
   \<and> lastPostedContent (fst (processEvent boundBridge deletedEvent)) exSession = None
   \<and> exSession \<notin> discordInitiatedSessions (fst (processEvent boundBridge deletedEvent))
   \<and> getSession (fst (processEvent boundBridge deletedEvent)) exThread = Some exSession"
proof -
  have h: "event_type deletedEvent = Some (ascii ''session.deleted'')"
    "prop_sessionId deletedEvent = Some exSession" "exSession \<noteq> []"
    "getThread boundBridge exSession = Some exThread"
    "getSession boundBridge exThread = Some exSession"
    by (simp_all add: ex_eval getThread_def getSession_def createSyncThread_def
          recordPosted_def Let_def ascii_def)
  have l: "lastPostedContent boundBridge exSession
       = Some \<lparr>userContent = ascii ''fix the bug'',
               assistantContent = ascii ''fixed it in main.go''\<rparr>"
    by (simp add: boundBridge_def recordPosted_def)
  from session_deleted_cleanup [OF h] h l show ?thesis by simp
qed

subsection \<open>Chat-initiated sessions\<close>

lemma healthy_run:
  "map_option snd (handleSessionIdle healthyWorld initialBridge exSession)
     = Some [Fetch_messages exSession,
             Start_thread exSession (ascii ''fix the bug''),
             Fetch_channel exThread,
             Send exThread (ascii ''**User:**'' @ [newline] @ ascii ''fix the bug''),
             Send exThread (ascii ''**Assistant:**'' @ [newline] @ ascii ''fixed it in main.go'')]"
  by (simp add: idle_eval ex_eval ascii_def newline_def)

lemma healthy_state:
  "map_option fst (handleSessionIdle healthyWorld initialBridge exSession) = Some boundBridge"
  by (simp add: idle_eval ex_eval ascii_def newline_def)

text \<open>
  C4: for a session in the chat-initiated set, handleSessionIdle changes nothing and
  makes no outside call (no message fetch, no thread creation, no post), whatever the
  backend would answer.
\<close>

theorem chat_initiated_not_mirrored:
  assumes "sessionId \<in> discordInitiatedSessions st"
  shows "handleSessionIdle w st sessionId = Some (st, [])"
  using assms by (simp add: handleSessionIdle_def)

theorem chat_initiated_not_mirrored_witness:
  "exSession \<in> discordInitiatedSessions (markChatInitiated initialBridge exSession)
   \<and> handleSessionIdle healthyWorld (markChatInitiated initialBridge exSession) exSession
       = Some (markChatInitiated initialBridge exSession, [])
   \<and> map_option snd (handleSessionIdle healthyWorld initialBridge exSession)
       = Some [Fetch_messages exSession,
               Start_thread exSession (ascii ''fix the bug''),
               Fetch_channel exThread,
               Send exThread (ascii ''**User:**'' @ [newline] @ ascii ''fix the bug''),
               Send exThread
                 (ascii ''**Assistant:**'' @ [newline] @ ascii ''fixed it in main.go'')]"
proof -
  have h: "exSession \<in> discordInitiatedSessions (markChatInitiated initialBridge exSession)"
    by (simp add: markChatInitiated_def)
  from chat_initiated_not_mirrored [OF h, of healthyWorld] h healthy_run
  show ?thesis by simp
qed

subsection \<open>Binding a session to a thread\<close>

text \<open>
  \<open>createSyncThread\<close> stores whatever thread was started, over any thread stored
  before; what keeps the first thread is the guard of its callers.
\<close>

lemma createSyncThread_failed:
  "\<forall>t. started_thread w s \<noteq> Thread_id t \<Longrightarrow> fst (createSyncThread w st s title) = st"
  by (cases "started_thread w s") (simp_all add: createSyncThread_def Let_def)

lemma createSyncThread_bound:
  "started_thread w s = Thread_id t \<Longrightarrow>
     getThread (fst (createSyncThread w st s title)) s = Some t"
  by (simp add: createSyncThread_def Let_def getThread_def)





text \<open>The same guard in \<open>handleSessionIdle\<close>: a session with a thread gets no new one.\<close>

lemma getOrCreateThread_bound:
  "getThread st s = Some t \<Longrightarrow> t \<noteq> [] \<Longrightarrow> getOrCreateThread w st s u = (st, Some t, [])"
  by (simp add: getOrCreateThread_def getThread_def)












subsection \<open>A post that fails\<close>

text \<open>
  C2 on the code. Every \<open>send\<close> throws, so \<open>postToSyncThread\<close> returns false and
  nothing reaches the thread; the exchange is recorded all the same, and the next idle
  event, with the platform healthy again, posts nothing: the retry is suppressed.
\<close>

theorem failed_post_is_recorded:
  "(case handleSessionIdle sendFailsWorld initialBridge exSession of
      None \<Rightarrow> False
    | Some (st, calls) \<Rightarrow>
        postToSyncThread sendFailsWorld exThread (ascii ''fix the bug'')
            (ascii ''fixed it in main.go'')
          = Some (False, [Fetch_channel exThread,
                          Send exThread (ascii ''**User:**'' @ [newline] @ ascii ''fix the bug'')])
        \<and> calls = [Fetch_messages exSession,
                    Start_thread exSession (ascii ''fix the bug''),
                    Fetch_channel exThread,
                    Send exThread (ascii ''**User:**'' @ [newline] @ ascii ''fix the bug'')]
        \<and> lastPostedContent initialBridge exSession = None
        \<and> lastPostedContent st exSession
            = Some \<lparr>userContent = ascii ''fix the bug'',
                    assistantContent = ascii ''fixed it in main.go''\<rparr>
        \<and> handleSessionIdle healthyWorld st exSession = Some (st, [Fetch_messages exSession]))"
  by (simp add: idle_eval ex_eval ascii_def newline_def)

subsection \<open>The end of the feed\<close>

lemma processEvents_timers:
  "\<forall>t \<in> set (snd (processEvents st evs)). \<exists>s. t = Idle_timer s 100"
proof (induction evs arbitrary: st)
  case Nil
  then show ?case by simp
next
  case (Cons ev evs)
  obtain st1 ts1 where p: "processEvent st ev = (st1, ts1)" by (cases "processEvent st ev")
  obtain st2 ts2 where q: "processEvents st1 evs = (st2, ts2)" by (cases "processEvents st1 evs")
  from p have "\<forall>t \<in> set ts1. \<exists>s. t = Idle_timer s 100"
    by (auto simp: processEvent_def Let_def split: if_splits option.splits)
  moreover from Cons.IH [of st1] q have "\<forall>t \<in> set ts2. \<exists>s. t = Idle_timer s 100" by simp
  ultimately show ?case using p q by auto
qed

lemma no_resubscribe_after_normal_end:
  "Resubscribe_timer delay \<notin> set (snd (startGlobalEventSubscription (Feed evs Feed_ends) st))"
proof -
  obtain st' ts where p: "processEvents st evs = (st', ts)" by (cases "processEvents st evs")
  have "Resubscribe_timer delay \<notin> set (snd (processEvents st evs))"
    using processEvents_timers [of st evs] by auto
  with p show ?thesis by (simp add: startGlobalEventSubscription_def)
qed

text \<open>
  C7, as stated, fails. The feed below delivers one idle event and then ends without
  throwing: the \<open>for await\<close> loop is left, the function returns, and the only timer
  is the one of the idle event. Nothing re-invokes the subscription.
\<close>

theorem feed_end_counterexample:
  "startGlobalEventSubscription (Feed [idleEvent] Feed_ends) initialBridge
     = (initialBridge, [Idle_timer exSession 100])"
  by (simp add: startGlobalEventSubscription_def processEvent_def idleEvent_def Let_def
        exSession_def ascii_def)

lemma startGlobalEventSubscription_throws:
  assumes "feedThrows f"
  shows "\<exists>timers. snd (startGlobalEventSubscription f st) = timers @ [Resubscribe_timer 10000]
           \<and> Resubscribe_timer 10000 \<notin> set timers"
proof (cases f)
  case Subscribe_throws
  then show ?thesis by (simp add: startGlobalEventSubscription_def)
next
  case (Feed evs e)
  with assms have e: "e = Feed_throws" by (simp add: feedThrows_def)
  obtain st' ts where p: "processEvents st evs = (st', ts)" by (cases "processEvents st evs")
  have "Resubscribe_timer 10000 \<notin> set ts"
    using processEvents_timers [of st evs] p by auto
  with Feed e p show ?thesis by (simp add: startGlobalEventSubscription_def)
qed

lemma subscriptionRuns_throws:
  "(\<forall>f \<in> set feeds. feedThrows f) \<Longrightarrow> subscriptionRuns st feeds = length feeds"
proof (induction feeds arbitrary: st)
  case Nil
  then show ?case by simp
next
  case (Cons f feeds)
  obtain st' timers where p: "startGlobalEventSubscription f st = (st', timers)"
    by (cases "startGlobalEventSubscription f st")
  from Cons.prems have "feedThrows f" by simp
  from startGlobalEventSubscription_throws [OF this, of st] p
  have "Resubscribe_timer 10000 \<in> set timers" by auto
  moreover from Cons have "subscriptionRuns st' feeds = length feeds" by simp
  ultimately show ?case using p by simp
qed

text \<open>
  C7, amended: whenever the subscription call or the iteration of the feed throws,
  the consumer schedules one re-invocation of the subscription entry point, after a
  fixed delay of 10 seconds and after the timers of the events it handled; nothing
  counts the attempts, so a run of feeds that all throw is followed to its end, however
  long it is.
\<close>

theorem resubscribe_after_throw:
  "startGlobalEventSubscription Subscribe_throws st = (st, [Resubscribe_timer 10000])
   \<and> startGlobalEventSubscription (Feed evs Feed_throws) st
       = (fst (processEvents st evs), snd (processEvents st evs) @ [Resubscribe_timer 10000])
   \<and> Resubscribe_timer 10000 \<notin> set (snd (processEvents st evs))
   \<and> ((\<forall>f \<in> set feeds. feedThrows f) \<longrightarrow> subscriptionRuns st feeds = length feeds)"
proof -
  have "Resubscribe_timer 10000 \<notin> set (snd (processEvents st evs))"
    using processEvents_timers [of st evs] by auto
  then show ?thesis
    using subscriptionRuns_throws [of feeds st]
    by (simp add: startGlobalEventSubscription_def split: prod.splits)
qed

theorem resubscribe_after_throw_witness:
  "feedThrows Subscribe_throws \<and> feedThrows (Feed [idleEvent] Feed_throws)
   \<and> subscriptionRuns initialBridge
         [Subscribe_throws, Feed [idleEvent] Feed_throws, Subscribe_throws] = 3
   \<and> startGlobalEventSubscription (Feed [idleEvent] Feed_throws) initialBridge
       = (initialBridge, [Idle_timer exSession 100, Resubscribe_timer 10000])"
proof -
  have h: "\<forall>f \<in> set [Subscribe_throws, Feed [idleEvent] Feed_throws, Subscribe_throws].
             feedThrows f"
    by (simp add: feedThrows_def)
  have e: "processEvents initialBridge [idleEvent] = (initialBridge, [Idle_timer exSession 100])"
    by (simp add: processEvent_def idleEvent_def Let_def exSession_def ascii_def)
  from resubscribe_after_throw
         [of initialBridge "[idleEvent]"
             "[Subscribe_throws, Feed [idleEvent] Feed_throws, Subscribe_throws]"]
       h e
  show ?thesis by simp
qed

section \<open>Properties of the model menu\<close>

lemma slice_page_2:
  assumes "length (models :: model list) = 47"
  shows "slice models (int (2 * pageSize)) (int (2 * pageSize + pageSize)) = drop 40 models"
  using assms by (simp add: slice_def sliceIndex_def pageSize_def Let_def)

lemma pageRows_seven:
  assumes "length pm = 7"
  shows "pageRows c s pm 0 =
           [map (modelButton c s pm) [0, 1, 2, 3, 4], map (modelButton c s pm) [5, 6]]"
proof -
  have u1: "[0 ..< 5] = [0, 1, 2, 3, 4 :: nat]"
    by (simp add: upt_rec)
  have u2: "[5 ..< 7] = [5, 6 :: nat]"
    by (simp add: upt_rec)
  have r3: "pageRows c s pm 10 = []"
    using assms by (subst pageRows.simps) simp
  have r2: "pageRows c s pm 5 = [map (modelButton c s pm) [5, 6]]"
    using assms r3 by (subst pageRows.simps) (simp add: u2 buttonsPerRow_def)
  show ?thesis
    using assms r2 by (subst pageRows.simps) (simp add: u1 buttonsPerRow_def)
qed

lemma modelButton_drop:
  assumes "start + j < length models"
  shows "modelButton c start (drop start models) j =
           \<lparr>customId = Model_button (start + j),
            label = slice (model_name (models ! (start + j))) 0 80,
            style = (if model_id (models ! (start + j)) = c then Success else Secondary)\<rparr>"
  using assms by (simp add: modelButton_def Let_def)

lemma pageButtonMap_lookup:
  "pageButtonMap start pm g =
     (if start \<le> g \<and> g < start + length pm then Some (pm ! (g - start)) else None)"
proof -
  have "fold (\<lambda>j m. m(start + j \<mapsto> pm ! j)) [0 ..< n] Map.empty g =
          (if start \<le> g \<and> g < start + n then Some (pm ! (g - start)) else None)" for n
  proof (induction n)
    case 0
    then show ?case by simp
  next
    case (Suc n)
    then show ?case by (auto simp: less_Suc_eq)
  qed
  then show ?thesis by (simp add: pageButtonMap_def)
qed

text \<open>
  C9: for 47 candidates, page size 20 and 5 buttons per row, page 2 shows exactly the
  candidates at the global indices 40 to 46, in a row of five and a row of two; the
  index of each control is 2 * 20 plus its offset in the page; the only navigation
  control is the one to page 1, so there is no control to a next page; and the
  button map stored for the page resolves exactly the indices 40 to 46, each to its
  candidate.
\<close>

theorem models_page_2_of_47:
  assumes "length models = 47"
  shows "components (handleModelsPage models currentModel 2) =
           [map (\<lambda>g. \<lparr>customId = Model_button g,
                       label = slice (model_name (models ! g)) 0 80,
                       style = (if model_id (models ! g) = currentModel
                                then Success else Secondary)\<rparr>)
              [40, 41, 42, 43, 44],
            map (\<lambda>g. \<lparr>customId = Model_button g,
                       label = slice (model_name (models ! g)) 0 80,
                       style = (if model_id (models ! g) = currentModel
                                then Success else Secondary)\<rparr>)
              [45, 46],
            [\<lparr>customId = Models_page 1, label = ascii ''Previous'', style = Primary\<rparr>]]
         \<and> [customId b. b \<leftarrow> concat (components (handleModelsPage models currentModel 2)),
                          \<forall>p. customId b \<noteq> Models_page p]
             = map (\<lambda>localOffset. Model_button (2 * 20 + localOffset)) [0, 1, 2, 3, 4, 5, 6]
         \<and> (\<forall>b \<in> set (concat (components (handleModelsPage models currentModel 2))).
               customId b \<noteq> Models_page 3)
         \<and> (\<forall>g. buttonMap (handleModelsPage models currentModel 2) g
                   = (if 40 \<le> g \<and> g \<le> 46 then Some (models ! g) else None))"
proof -
  let ?pm = "drop 40 models"
  have len: "length ?pm = 7" using assms by simp
  have rows: "pageRows currentModel 40 ?pm 0 =
           [map (modelButton currentModel 40 ?pm) [0, 1, 2, 3, 4],
            map (modelButton currentModel 40 ?pm) [5, 6]]"
    by (rule pageRows_seven [OF len])
  have btn: "modelButton currentModel 40 ?pm j =
           \<lparr>customId = Model_button (40 + j),
            label = slice (model_name (models ! (40 + j))) 0 80,
            style = (if model_id (models ! (40 + j)) = currentModel
                     then Success else Secondary)\<rparr>" if "j < 7" for j
    using that assms by (intro modelButton_drop) simp
  have comp: "components (handleModelsPage models currentModel 2) =
           [map (modelButton currentModel 40 ?pm) [0, 1, 2, 3, 4],
            map (modelButton currentModel 40 ?pm) [5, 6],
            [\<lparr>customId = Models_page 1, label = ascii ''Previous'', style = Primary\<rparr>]]"
    using assms rows slice_page_2 [OF assms]
    by (simp add: handleModelsPage_def Let_def pageSize_def)
  have bm: "buttonMap (handleModelsPage models currentModel 2) = pageButtonMap 40 ?pm"
    using slice_page_2 [OF assms] by (simp add: handleModelsPage_def Let_def pageSize_def)
  have map_ok: "\<forall>g. buttonMap (handleModelsPage models currentModel 2) g
                   = (if 40 \<le> g \<and> g \<le> 46 then Some (models ! g) else None)"
    unfolding bm pageButtonMap_lookup len using assms by auto
  show ?thesis
    unfolding comp using map_ok by (simp add: btn)
qed

theorem models_page_2_of_47_witness:
  "length exModels = 47
   \<and> map (map customId) (components (handleModelsPage exModels (ascii ''m'') 2))
       = [[Model_button 40, Model_button 41, Model_button 42, Model_button 43, Model_button 44],
          [Model_button 45, Model_button 46],
          [Models_page 1]]"
proof -
  have h: "length exModels = 47" by (simp add: exModels_def)
  from models_page_2_of_47 [OF h, of "ascii ''m''"] h show ?thesis by simp
qed

end
